theory Spec2Isabelle
  imports Main
begin

section \<open>Data model of the parser engine (parser.cpp, namespace parserlib)\<close>

text \<open>
  Rules are C++ objects identified by their address; here a rule is identified by a
  natural number. Input characters are the \<open>int\<close> values the input vector holds.
\<close>

type_synonym rule_id = nat

text \<open>The expression classes \<open>_char\<close>, \<open>_string\<close>, \<open>_set\<close>, \<open>_term\<close>, \<open>_loop0\<close>,
  \<open>_loop1\<close>, \<open>_optional\<close>, \<open>_and\<close>, \<open>_not\<close>, \<open>_nl\<close>, \<open>_seq\<close>, \<open>_choice\<close>, \<open>_ref\<close>,
  \<open>_eof\<close> and \<open>_any\<close>, one constructor each. \<open>_set\<close> keeps its \<open>std::vector<bool>\<close>.\<close>

datatype expr =
    EChar int
  | EString "int list"
  | ESet "bool list"
  | ETerm expr
  | ELoop0 expr
  | ELoop1 expr
  | EOptional expr
  | EAnd expr
  | ENot expr
  | ENl expr
  | ESeq expr expr
  | EChoice expr expr
  | ERef rule_id
  | EEof
  | EAny

text \<open>Class \<open>pos\<close>: the iterator (as an offset from the begin of the input), line, column.\<close>

record pos =
  m_it :: nat
  m_line :: nat
  m_col :: nat

text \<open>
  Modelled from the spec: the declaration of \<open>rule::_state\<close> and \<open>rule::_MODE\<close> is in
  parser.hpp, which is not among the sources. The spec gives the per-parse state as
  \<open>(mode, last_attempt_pos)\<close> with mode one of PARSE, REJECT, ACCEPT and the initial value
  \<open>(PARSE, \<bottom>)\<close>; \<open>None\<close> is that \<open>\<bottom>\<close>, which is equal to no input offset.
\<close>

datatype rule_mode = PARSE | REJECT | ACCEPT

record rule_state =
  s_pos :: "nat option"
  s_mode :: rule_mode

definition initial_rule_state :: rule_state where
  "initial_rule_state = \<lparr>s_pos = None, s_mode = PARSE\<rparr>"

text \<open>A parse procedure is a function pointer; only its identity matters here.\<close>

type_synonym parse_proc = nat

text \<open>The immutable part of a rule: its expression and its parse procedure (null = \<open>None\<close>).\<close>

record rule =
  m_expr :: expr
  m_parse_proc :: "parse_proc option"

type_synonym grammar = "rule_id \<Rightarrow> rule"

text \<open>
  Class \<open>_match\<close>. \<open>std::vector::resize\<close> to a larger size appends elements built by the
  null constructor \<open>_match()\<close>, which leaves \<open>m_rule\<close> uninitialised: \<open>Uninit\<close>.
\<close>

datatype match = Match rule_id pos pos | Uninit

text \<open>Class \<open>_state\<close>: the snapshot of a context, position and size of the match vector.\<close>

record state =
  st_pos :: pos
  st_matches :: nat

text \<open>
  Class \<open>_context\<close>. \<open>m_begin\<close> is offset 0 and \<open>m_end\<close> is \<open>length m_input\<close>.
  Two fields are not members of the C++ class: \<open>rule_states\<close> is the store of the
  \<open>m_state\<close> members of the rule objects, which the engine mutates through \<open>rule &\<close>;
  \<open>ws_calls\<close> counts the calls of \<open>_context::parse_ws\<close> and is read by no operation.
\<close>

record "context" =
  m_ws :: rule_id
  m_pos :: pos
  m_error_pos :: pos
  m_input :: "int list"
  m_matches :: "match list"
  rule_states :: "rule_id \<Rightarrow> rule_state"
  ws_calls :: nat

definition new_context :: "int list \<Rightarrow> rule_id \<Rightarrow> (rule_id \<Rightarrow> rule_state) \<Rightarrow> context" where
  "new_context i ws rs =
     \<lparr>m_ws = ws,
      m_pos = \<lparr>m_it = 0, m_line = 1, m_col = 1\<rparr>,
      m_error_pos = \<lparr>m_it = 0, m_line = 1, m_col = 1\<rparr>,
      m_input = i,
      m_matches = [],
      rule_states = rs,
      ws_calls = 0\<rparr>"

subsection \<open>Operations of the context\<close>

definition end_reached :: "context \<Rightarrow> bool" where
  "end_reached con = (m_it (m_pos con) = length (m_input con))"

definition symbol :: "context \<Rightarrow> int" where
  "symbol con = m_input con ! m_it (m_pos con)"

definition set_error_pos :: "context \<Rightarrow> context" where
  "set_error_pos con =
     (if m_it (m_pos con) > m_it (m_error_pos con) then con\<lparr>m_error_pos := m_pos con\<rparr> else con)"

definition next_col :: "context \<Rightarrow> context" where
  "next_col con =
     con\<lparr>m_pos := (m_pos con)\<lparr>m_it := m_it (m_pos con) + 1, m_col := m_col (m_pos con) + 1\<rparr>\<rparr>"

definition next_line :: "context \<Rightarrow> context" where
  "next_line con = con\<lparr>m_pos := (m_pos con)\<lparr>m_line := m_line (m_pos con) + 1, m_col := 1\<rparr>\<rparr>"

definition mk_state :: "context \<Rightarrow> state" where
  "mk_state con = \<lparr>st_pos = m_pos con, st_matches = length (m_matches con)\<rparr>"

definition resize :: "match list \<Rightarrow> nat \<Rightarrow> match list" where
  "resize ms k = take k ms @ replicate (k - length ms) Uninit"

definition restore :: "context \<Rightarrow> state \<Rightarrow> context" where
  "restore con st = con\<lparr>m_pos := st_pos st, m_matches := resize (m_matches con) (st_matches st)\<rparr>"

definition push_match :: "context \<Rightarrow> match \<Rightarrow> context" where
  "push_match con m = con\<lparr>m_matches := m_matches con @ [m]\<rparr>"

definition set_rule_state :: "context \<Rightarrow> rule_id \<Rightarrow> rule_state \<Rightarrow> context" where
  "set_rule_state con r s = con\<lparr>rule_states := (rule_states con)(r := s)\<rparr>"

definition set_rule_pos :: "context \<Rightarrow> rule_id \<Rightarrow> nat \<Rightarrow> context" where
  "set_rule_pos con r p = set_rule_state con r ((rule_states con r)\<lparr>s_pos := Some p\<rparr>)"

definition set_rule_mode :: "context \<Rightarrow> rule_id \<Rightarrow> rule_mode \<Rightarrow> context" where
  "set_rule_mode con r m = set_rule_state con r ((rule_states con r)\<lparr>s_mode := m\<rparr>)"

definition count_ws :: "context \<Rightarrow> context" where
  "count_ws con = con\<lparr>ws_calls := Suc (ws_calls con)\<rparr>"

subsection \<open>Character-level matchers\<close>

text \<open>\<open>_char::_parse\<close>\<close>

definition char_parse :: "int \<Rightarrow> context \<Rightarrow> bool \<times> context" where
  "char_parse c con =
     (if \<not> end_reached con then
        (if symbol con = c then (True, next_col con) else (False, set_error_pos con))
      else (False, set_error_pos con))"

text \<open>\<open>_string::_parse\<close>: the loop over the characters of the string.\<close>

fun string_parse :: "int list \<Rightarrow> context \<Rightarrow> bool \<times> context" where
  "string_parse [] con = (True, con)"
| "string_parse (c # cs) con =
     (if end_reached con then (False, set_error_pos con)
      else if symbol con \<noteq> c then (False, set_error_pos con)
      else string_parse cs (next_col con))"

text \<open>\<open>_set::_parse\<close>. The symbol is converted to \<open>size_t\<close>: a negative symbol becomes a
  value above every vector size, so it is never in the set.\<close>

definition set_parse :: "bool list \<Rightarrow> context \<Rightarrow> bool \<times> context" where
  "set_parse s con =
     (if \<not> end_reached con then
        (let ch = symbol con in
         if 0 \<le> ch \<and> nat ch < length s \<and> s ! nat ch then (True, next_col con)
         else (False, set_error_pos con))
      else (False, set_error_pos con))"

text \<open>\<open>_any::parse_term\<close>\<close>

definition any_parse :: "context \<Rightarrow> bool \<times> context" where
  "any_parse con =
     (if \<not> end_reached con then (True, next_col con) else (False, set_error_pos con))"

subsection \<open>The evaluator\<close>

text \<open>
  A call either returns a \<open>bool\<close> or leaves by the exception \<open>_lr_ok\<close>, which carries a rule.
  The evaluator need not terminate, so every function takes fuel, one unit per call;
  \<open>None\<close> is "out of fuel".
\<close>

datatype outcome = Ret bool | Throw rule_id

type_synonym result = "(outcome \<times> context) option"

text \<open>Sequencing of two statements: an exception (or running out of fuel) in the first
  skips the second.\<close>

definition on_return :: "result \<Rightarrow> (bool \<Rightarrow> context \<Rightarrow> result) \<Rightarrow> result" where
  "on_return m f =
     (case m of
        None \<Rightarrow> None
      | Some (Throw r, c) \<Rightarrow> Some (Throw r, c)
      | Some (Ret b, c) \<Rightarrow> f b c)"

definition leaf :: "bool \<times> context \<Rightarrow> result" where
  "leaf p = Some (Ret (fst p), snd p)"

text \<open>
  The flag \<open>nt\<close> selects between the two virtual methods of an expression and of the
  context: \<open>True\<close> is \<open>parse_non_term\<close>, \<open>False\<close> is \<open>parse_term\<close>. The two differ in the
  calls of \<open>con.parse_ws()\<close>, which is \<open>parse_term(m_ws)\<close>, and in the method they call on
  subexpressions. The functions of the engine call each other; a \<open>call\<close> names one of them
  with its arguments:
  \<^item> \<open>CExpr\<close>: the methods \<open>parse_non_term\<close> / \<open>parse_term\<close> of the expression classes;
  \<^item> \<open>CLoop\<close>: the \<open>for(;;)\<close> loop of \<open>_loop0\<close> and \<open>_loop1\<close>;
  \<^item> \<open>CRule\<close>: \<open>_context::parse_non_term\<close> / \<open>_context::parse_term\<close>;
  \<^item> \<open>CGrow\<close>: the \<open>for(;;)\<close> loop of these two, with the statements after it;
  \<^item> \<open>CInternal\<close>: \<open>_context::_parse_non_term\<close> / \<open>_context::_parse_term\<close>.
  Each body below is written over \<open>rec\<close>, the engine with one unit of fuel less.
\<close>

datatype call =
    CExpr bool expr
  | CLoop bool expr
  | CRule bool rule_id
  | CGrow bool rule_id rule_state
  | CInternal bool rule_id

type_synonym engine = "call \<Rightarrow> context \<Rightarrow> result"

text \<open>\<open>con.parse_ws()\<close> where the non-terminal method has it, nothing in the terminal method.\<close>

definition skip_ws :: "engine \<Rightarrow> bool \<Rightarrow> context \<Rightarrow> result" where
  "skip_ws rec nt con =
     (if nt then rec (CRule False (m_ws con)) (count_ws con) else Some (Ret True, con))"

text \<open>The body of the loop of \<open>_loop0\<close> and \<open>_loop1\<close>, which is also the first attempt of
  \<open>_loop0\<close>.\<close>

definition loop_body :: "engine \<Rightarrow> bool \<Rightarrow> expr \<Rightarrow> context \<Rightarrow> result" where
  "loop_body rec nt e con =
     on_return (skip_ws rec nt con)
       (\<lambda>_ c1. let st = mk_state c1 in
          on_return (rec (CExpr nt e) c1)
            (\<lambda>ok c2. if \<not> ok then Some (Ret True, restore c2 st) else rec (CLoop nt e) c2))"

primrec expr_body :: "engine \<Rightarrow> bool \<Rightarrow> expr \<Rightarrow> context \<Rightarrow> result" where
  "expr_body rec nt (EChar c) con = leaf (char_parse c con)"
| "expr_body rec nt (EString s) con = leaf (string_parse s con)"
| "expr_body rec nt (ESet s) con = leaf (set_parse s con)"
| "expr_body rec nt (ETerm e) con = rec (CExpr False e) con"
| "expr_body rec nt (ELoop0 e) con = loop_body rec nt e con"
| "expr_body rec nt (ELoop1 e) con =
     on_return (skip_ws rec nt con)
       (\<lambda>_ c1.
          on_return (rec (CExpr nt e) c1)
            (\<lambda>ok c2. if \<not> ok then Some (Ret False, c2) else rec (CLoop nt e) c2))"
| "expr_body rec nt (EOptional e) con =
     (let st = mk_state con in
      on_return (rec (CExpr nt e) con)
        (\<lambda>ok c. if \<not> ok then Some (Ret True, restore c st) else Some (Ret True, c)))"
| "expr_body rec nt (EAnd e) con =
     (let st = mk_state con in
      on_return (rec (CExpr nt e) con) (\<lambda>ok c. Some (Ret ok, restore c st)))"
| "expr_body rec nt (ENot e) con =
     (let st = mk_state con in
      on_return (rec (CExpr nt e) con) (\<lambda>ok c. Some (Ret (\<not> ok), restore c st)))"
| "expr_body rec nt (ENl e) con =
     on_return (rec (CExpr nt e) con)
       (\<lambda>ok c. if \<not> ok then Some (Ret False, c) else Some (Ret True, next_line c))"
| "expr_body rec nt (ESeq l r) con =
     on_return (rec (CExpr nt l) con)
       (\<lambda>ok c1. if \<not> ok then Some (Ret False, c1)
          else on_return (skip_ws rec nt c1) (\<lambda>_ c2. rec (CExpr nt r) c2))"
| "expr_body rec nt (EChoice l r) con =
     (let st = mk_state con in
      on_return (rec (CExpr nt l) con)
        (\<lambda>ok c1. if ok then Some (Ret True, c1) else rec (CExpr nt r) (restore c1 st)))"
| "expr_body rec nt (ERef r) con = rec (CRule nt r) con"
| "expr_body rec nt EEof con = Some (Ret (end_reached con), con)"
| "expr_body rec nt EAny con = leaf (any_parse con)"

definition rule_body :: "engine \<Rightarrow> bool \<Rightarrow> rule_id \<Rightarrow> context \<Rightarrow> result" where
  "rule_body rec nt r con =
     (let old_state = rule_states con r;
          new_pos = m_it (m_pos con);
          lr = (s_pos (rule_states con r) = Some new_pos);
          con1 = set_rule_pos con r new_pos
      in case s_mode (rule_states con1 r) of
           PARSE \<Rightarrow>
             if lr then
               on_return (rec (CInternal nt r) (set_rule_mode con1 r REJECT))
                 (\<lambda>ok c. if ok then rec (CGrow nt r old_state) (set_rule_mode c r ACCEPT)
                    else Some (Ret ok, set_rule_state c r old_state))
             else
               (case rec (CInternal nt r) con1 of
                  None \<Rightarrow> None
                | Some (Ret ok, c) \<Rightarrow> Some (Ret ok, set_rule_state c r old_state)
                | Some (Throw ex, c) \<Rightarrow>
                    if ex = r then Some (Ret True, set_rule_state c r old_state)
                    else Some (Throw ex, set_rule_state c r old_state))
         | REJECT \<Rightarrow>
             if lr then Some (Ret False, set_rule_state con1 r old_state)
             else
               on_return (rec (CInternal nt r) (set_rule_mode con1 r PARSE))
                 (\<lambda>ok c. Some (Ret ok, set_rule_state (set_rule_mode c r REJECT) r old_state))
         | ACCEPT \<Rightarrow>
             if lr then Some (Ret True, set_rule_state con1 r old_state)
             else
               on_return (rec (CInternal nt r) (set_rule_mode con1 r PARSE))
                 (\<lambda>ok c. Some (Ret ok, set_rule_state (set_rule_mode c r ACCEPT) r old_state)))"

definition grow_body :: "engine \<Rightarrow> bool \<Rightarrow> rule_id \<Rightarrow> rule_state \<Rightarrow> context \<Rightarrow> result" where
  "grow_body rec nt r old_state con =
     (let st = mk_state con;
          con1 = set_rule_pos con r (m_it (m_pos con))
      in on_return (rec (CInternal nt r) con1)
           (\<lambda>ok c. if \<not> ok then Some (Throw r, set_rule_state (restore c st) r old_state)
              else rec (CGrow nt r old_state) c))"

definition internal_body :: "engine \<Rightarrow> grammar \<Rightarrow> bool \<Rightarrow> rule_id \<Rightarrow> context \<Rightarrow> result" where
  "internal_body rec G nt r con =
     (if m_parse_proc (G r) \<noteq> None then
        (let b = m_pos con in
         on_return (rec (CExpr nt (m_expr (G r))) con)
           (\<lambda>ok c. if ok then Some (Ret ok, push_match c (Match r b (m_pos c)))
              else Some (Ret ok, c)))
      else rec (CExpr nt (m_expr (G r))) con)"

primrec dispatch :: "engine \<Rightarrow> grammar \<Rightarrow> call \<Rightarrow> context \<Rightarrow> result" where
  "dispatch rec G (CExpr nt e) con = expr_body rec nt e con"
| "dispatch rec G (CLoop nt e) con = loop_body rec nt e con"
| "dispatch rec G (CRule nt r) con = rule_body rec nt r con"
| "dispatch rec G (CGrow nt r old_state) con = grow_body rec nt r old_state con"
| "dispatch rec G (CInternal nt r) con = internal_body rec G nt r con"

primrec run :: "nat \<Rightarrow> grammar \<Rightarrow> engine" where
  "run 0 G = (\<lambda>c con. None)"
| "run (Suc n) G = dispatch (run n G) G"

definition expr_parse :: "nat \<Rightarrow> grammar \<Rightarrow> bool \<Rightarrow> expr \<Rightarrow> context \<Rightarrow> result" where
  "expr_parse n G nt e con = run n G (CExpr nt e) con"

definition context_parse :: "nat \<Rightarrow> grammar \<Rightarrow> bool \<Rightarrow> rule_id \<Rightarrow> context \<Rightarrow> result" where
  "context_parse n G nt r con = run n G (CRule nt r) con"

definition grow_loop :: "nat \<Rightarrow> grammar \<Rightarrow> bool \<Rightarrow> rule_id \<Rightarrow> rule_state \<Rightarrow> context \<Rightarrow> result" where
  "grow_loop n G nt r old_state con = run n G (CGrow nt r old_state) con"

definition context_parse_internal :: "nat \<Rightarrow> grammar \<Rightarrow> bool \<Rightarrow> rule_id \<Rightarrow> context \<Rightarrow> result" where
  "context_parse_internal n G nt r con = run n G (CInternal nt r) con"


subsection \<open>Action dispatch and the driver\<close>

text \<open>
  \<open>_context::do_parse_procs\<close> calls the parse procedure of the rule of every match, in
  order, with no check of the pointer. A call through a null procedure or through the
  rule pointer of an \<open>Uninit\<close> match is a crash of the program.
\<close>

datatype crash = NullProcCall | UninitRule

type_synonym proc_call = "parse_proc \<times> pos \<times> pos"

fun do_parse_procs :: "grammar \<Rightarrow> match list \<Rightarrow> crash + proc_call list" where
  "do_parse_procs G [] = Inr []"
| "do_parse_procs G (Uninit # ms) = Inl UninitRule"
| "do_parse_procs G (Match r b e # ms) =
     (case m_parse_proc (G r) of
        None \<Rightarrow> Inl NullProcCall
      | Some p \<Rightarrow>
          (case do_parse_procs G ms of
             Inl cr \<Rightarrow> Inl cr
           | Inr calls \<Rightarrow> Inr ((p, b, e) # calls)))"

datatype error_type = ERROR_SYNTAX_ERROR | ERROR_INVALID_EOF

text \<open>Class \<open>error\<close>: an \<open>input_range\<close> with a type.\<close>

record error =
  e_begin :: pos
  e_end :: pos
  e_type :: error_type

definition next_pos :: "pos \<Rightarrow> pos" where
  "next_pos p = p\<lparr>m_it := m_it p + 1, m_col := m_col p + 1\<rparr>"

text \<open>\<open>_syntax_error\<close>. Its local string \<open>str\<close> is used nowhere and is left out; it is
  built from the character read at the error position, also when that position is the
  end of the input.\<close>

definition syntax_error :: "context \<Rightarrow> error" where
  "syntax_error con =
     \<lparr>e_begin = m_error_pos con, e_end = next_pos (m_error_pos con), e_type = ERROR_SYNTAX_ERROR\<rparr>"

definition eof_error :: "context \<Rightarrow> error" where
  "eof_error con =
     \<lparr>e_begin = m_error_pos con, e_end = m_error_pos con, e_type = ERROR_INVALID_EOF\<rparr>"

text \<open>
  How a call of \<open>parse\<close> ends: it returns its \<open>bool\<close>, with the error list and the calls of
  parse procedures it made; or the exception \<open>_lr_ok\<close> leaves it; or it crashes in
  \<open>do_parse_procs\<close>.
\<close>

datatype parse_exit =
    Returned bool "error list" "proc_call list"
  | Uncaught rule_id
  | Crashed crash

text \<open>The function \<open>parse\<close>. \<open>rs\<close> is the state of the rule objects when it is called, \<open>el\<close>
  the error list it appends to.\<close>

definition parse ::
  "nat \<Rightarrow> grammar \<Rightarrow> (rule_id \<Rightarrow> rule_state) \<Rightarrow> int list \<Rightarrow> rule_id \<Rightarrow> rule_id \<Rightarrow> error list
     \<Rightarrow> parse_exit option" where
  "parse n G rs i g ws el =
     (let con = new_context i ws rs in
      case context_parse n G False (m_ws con) con of
        None \<Rightarrow> None
      | Some (Throw ex, c1) \<Rightarrow> Some (Uncaught ex)
      | Some (Ret ok1, c1) \<Rightarrow>
          (case context_parse n G True g c1 of
             None \<Rightarrow> None
           | Some (Throw ex, c2) \<Rightarrow> Some (Uncaught ex)
           | Some (Ret ok2, c2) \<Rightarrow>
               if \<not> ok2 then Some (Returned False (el @ [syntax_error c2]) [])
               else
                 (case context_parse n G False (m_ws c2) c2 of
                    None \<Rightarrow> None
                  | Some (Throw ex, c3) \<Rightarrow> Some (Uncaught ex)
                  | Some (Ret ok3, c3) \<Rightarrow>
                      if \<not> end_reached c3 then
                        (if m_it (m_error_pos c3) < length (m_input c3)
                         then Some (Returned False (el @ [syntax_error c3]) [])
                         else Some (Returned False (el @ [eof_error c3]) []))
                      else
                        (case do_parse_procs G (m_matches c3) of
                           Inl cr \<Rightarrow> Some (Crashed cr)
                         | Inr calls \<Rightarrow> Some (Returned True el calls)))))"

section \<open>Vocabulary of the properties\<close>

text \<open>
  A relation \<open>R\<close> between the context before and after a call holds of a result when the
  call came back, by return or by exception, with the two contexts related.
\<close>

definition holds :: "(context \<Rightarrow> context \<Rightarrow> bool) \<Rightarrow> context \<Rightarrow> result \<Rightarrow> bool" where
  "holds R con m = (case m of None \<Rightarrow> True | Some (out, c) \<Rightarrow> R con c)"

text \<open>\<open>R\<close> is stable: a preorder that every operation of the context respects. Restoring
  a snapshot is respected relative to the context the snapshot was taken from; a match is
  pushed only for a rule with a parse procedure.\<close>

definition stable :: "grammar \<Rightarrow> (context \<Rightarrow> context \<Rightarrow> bool) \<Rightarrow> bool" where
  "stable G R \<longleftrightarrow>
     (\<forall>c. R c c) \<and>
     (\<forall>a b c. R a b \<longrightarrow> R b c \<longrightarrow> R a c) \<and>
     (\<forall>c. R c (next_col c)) \<and>
     (\<forall>c. R c (next_line c)) \<and>
     (\<forall>c. R c (set_error_pos c)) \<and>
     (\<forall>c r s. R c (set_rule_state c r s)) \<and>
     (\<forall>a b. R a b \<longrightarrow> R a (restore b (mk_state a))) \<and>
     (\<forall>c r b e. m_parse_proc (G r) \<noteq> None \<longrightarrow> R c (push_match c (Match r b e)))"

text \<open>The method a call stands for: \<open>True\<close> for \<open>parse_non_term\<close>.\<close>

primrec call_nt :: "call \<Rightarrow> bool" where
  "call_nt (CExpr nt e) = nt"
| "call_nt (CLoop nt e) = nt"
| "call_nt (CRule nt r) = nt"
| "call_nt (CGrow nt r s) = nt"
| "call_nt (CInternal nt r) = nt"

text \<open>\<open>R\<close> holds of every call of an engine; of the non-terminal calls only if \<open>ws_ok\<close>.\<close>

definition engine_holds :: "(context \<Rightarrow> context \<Rightarrow> bool) \<Rightarrow> bool \<Rightarrow> engine \<Rightarrow> bool" where
  "engine_holds R ws_ok rec \<longleftrightarrow> (\<forall>c con. (call_nt c \<longrightarrow> ws_ok) \<longrightarrow> holds R con (rec c con))"

definition error_le :: "context \<Rightarrow> context \<Rightarrow> bool" where
  "error_le c c' = (m_it (m_error_pos c) \<le> m_it (m_error_pos c'))"

definition same_ws_calls :: "context \<Rightarrow> context \<Rightarrow> bool" where
  "same_ws_calls c c' = (ws_calls c' = ws_calls c)"


text \<open>A match that \<open>do_parse_procs\<close> can dispatch: its rule has a parse procedure.\<close>

fun has_proc :: "grammar \<Rightarrow> match \<Rightarrow> bool" where
  "has_proc G (Match r b e) = (m_parse_proc (G r) \<noteq> None)"
| "has_proc G Uninit = False"

definition matches_grow :: "grammar \<Rightarrow> context \<Rightarrow> context \<Rightarrow> bool" where
  "matches_grow G c c' =
     (length (m_matches c) \<le> length (m_matches c') \<and>
      (list_all (has_proc G) (m_matches c) \<longrightarrow> list_all (has_proc G) (m_matches c')))"


text \<open>
  The expressions that leave position and match vector as they found them whenever they
  return false: the one-character matchers and \<open>_eof\<close>, which do not move on failure;
  \<open>_and\<close> and \<open>_not\<close>, which always restore their snapshot; \<open>_optional\<close> and \<open>_loop0\<close>, which
  never return false; and \<open>_term\<close>, \<open>_nl\<close> and \<open>_choice\<close> when the expression whose failure
  they pass on is one of these.
\<close>

primrec restores_on_failure :: "expr \<Rightarrow> bool" where
  "restores_on_failure (EChar c) = True"
| "restores_on_failure (EString s) = False"
| "restores_on_failure (ESet s) = True"
| "restores_on_failure (ETerm e) = restores_on_failure e"
| "restores_on_failure (ELoop0 e) = True"
| "restores_on_failure (ELoop1 e) = False"
| "restores_on_failure (EOptional e) = True"
| "restores_on_failure (EAnd e) = True"
| "restores_on_failure (ENot e) = True"
| "restores_on_failure (ENl e) = restores_on_failure e"
| "restores_on_failure (ESeq l r) = False"
| "restores_on_failure (EChoice l r) = restores_on_failure r"
| "restores_on_failure (ERef r) = False"
| "restores_on_failure EEof = True"
| "restores_on_failure EAny = True"

section \<open>Grammars and contexts used as examples\<close>

definition initial_states :: "rule_id \<Rightarrow> rule_state" where
  "initial_states = (\<lambda>_. initial_rule_state)"

text \<open>In every example rule 0 is the whitespace rule \<open>*' '\<close>. Characters: 32 is the space,
  43 \<open>+\<close>, 97 \<open>a\<close>, 98 \<open>b\<close>, 99 \<open>c\<close>, 120 \<open>x\<close>, 121 \<open>y\<close>.\<close>

text \<open>Rule 1 is \<open>a = a | 'x'\<close>.\<close>

definition grammar_a :: grammar where
  "grammar_a =
     (\<lambda>_. \<lparr>m_expr = ELoop0 (EChar 32), m_parse_proc = None\<rparr>)
     (1 := \<lparr>m_expr = EChoice (ERef 1) (EChar 120), m_parse_proc = None\<rparr>)"

text \<open>Rule 1 is \<open>'a' >> -('b' >> 'c')\<close>, with parse procedure 10.\<close>

definition grammar_opt :: grammar where
  "grammar_opt =
     (\<lambda>_. \<lparr>m_expr = ELoop0 (EChar 32), m_parse_proc = None\<rparr>)
     (1 := \<lparr>m_expr = ESeq (EChar 97) (EOptional (ESeq (EChar 98) (EChar 99))),
            m_parse_proc = Some 10\<rparr>)"

text \<open>Mutual left recursion: rule 1 is \<open>A = B >> 'x' | 'a'\<close>, rule 2 is \<open>B = A >> 'y' | 'b'\<close>.\<close>

definition grammar_mutual :: grammar where
  "grammar_mutual =
     (\<lambda>_. \<lparr>m_expr = ELoop0 (EChar 32), m_parse_proc = None\<rparr>)
     (1 := \<lparr>m_expr = EChoice (ESeq (ERef 2) (EChar 120)) (EChar 97), m_parse_proc = None\<rparr>,
      2 := \<lparr>m_expr = EChoice (ESeq (ERef 1) (EChar 121)) (EChar 98), m_parse_proc = None\<rparr>)"

text \<open>The context of the inner invocation of rule 1 of \<open>grammar_mutual\<close> on the input \<open>b\<close>:
  \<open>parse_non_term\<close> on rule 1 has recorded offset 0 in rule 1 and entered its body, the
  reference to rule 2 has recorded offset 0 in rule 2 and entered its body, whose first
  reference is to rule 1 again; nothing is consumed yet.\<close>

definition mutual_inner :: "context" where
  "mutual_inner =
     (new_context [98] 0 initial_states)
       \<lparr>rule_states := initial_states
          (1 := \<lparr>s_pos = Some 0, s_mode = PARSE\<rparr>, 2 := \<lparr>s_pos = Some 0, s_mode = PARSE\<rparr>)\<rparr>"

text \<open>A fresh context in which rule \<open>r\<close> has the state \<open>s\<close>.\<close>

definition at_state :: "int list \<Rightarrow> rule_id \<Rightarrow> rule_state \<Rightarrow> context" where
  "at_state i r s = (new_context i 0 initial_states)\<lparr>rule_states := initial_states(r := s)\<rparr>"

text \<open>The context in which \<open>parse_non_term\<close> on rule 1 of \<open>grammar_a\<close> enters its grow loop
  on the input \<open>x\<close>: the seed has matched the \<open>x\<close>, the rule is in mode ACCEPT and its
  recorded position is still the offset 0 of the invocation.\<close>

definition grow_entry_a :: "context" where
  "grow_entry_a =
     (new_context [120] 0 initial_states)
       \<lparr>m_pos := \<lparr>m_it = 1, m_line = 1, m_col = 2\<rparr>,
        rule_states := initial_states(1 := \<lparr>s_pos = Some 0, s_mode = ACCEPT\<rparr>)\<rparr>"

text \<open>The position at offset \<open>k\<close> of the first line, and the context over input \<open>i\<close> at
  position \<open>p\<close> with error position \<open>ep\<close>, matches \<open>ms\<close> and \<open>k\<close> calls of \<open>parse_ws\<close>.\<close>

definition pos_at :: "nat \<Rightarrow> pos" where
  "pos_at k = \<lparr>m_it = k, m_line = 1, m_col = Suc k\<rparr>"

definition context_at :: "int list \<Rightarrow> nat \<Rightarrow> nat \<Rightarrow> match list \<Rightarrow> nat \<Rightarrow> context" where
  "context_at i p ep ms k =
     (new_context i 0 initial_states)
       \<lparr>m_pos := pos_at p, m_error_pos := pos_at ep, m_matches := ms, ws_calls := k\<rparr>"

section \<open>Unfolding the engine\<close>

lemma expr_parse_Suc: "expr_parse (Suc n) G nt e con = expr_body (run n G) nt e con"
  by (simp add: expr_parse_def)

lemma context_parse_Suc: "context_parse (Suc n) G nt r con = rule_body (run n G) nt r con"
  by (simp add: context_parse_def)

lemma grow_loop_Suc:
  "grow_loop (Suc n) G nt r old_state con = grow_body (run n G) nt r old_state con"
  by (simp add: grow_loop_def)

lemmas engine_simps = expr_parse_def context_parse_def grow_loop_def
  loop_body_def rule_body_def grow_body_def internal_body_def skip_ws_def on_return_def leaf_def
  char_parse_def set_parse_def any_parse_def end_reached_def symbol_def set_error_pos_def
  next_col_def next_line_def mk_state_def resize_def restore_def push_match_def
  set_rule_state_def set_rule_pos_def set_rule_mode_def count_ws_def new_context_def
  initial_rule_state_def initial_states_def Let_def

lemmas context_ops = set_error_pos_def next_col_def next_line_def mk_state_def resize_def
  restore_def push_match_def set_rule_state_def count_ws_def

lemmas example_simps = eval_nat_numeral engine_simps fun_upd_idem pos_at_def context_at_def

text \<open>Fuel below four, or at least four: the depth to which the examples are unfolded.\<close>

lemma fuel_cases4: "n = 0 \<or> n = 1 \<or> n = 2 \<or> n = 3 \<or> (\<exists>k. n = Suc (Suc (Suc (Suc k))))"
  by presburger

lemma on_return_SomeD:
  "on_return m f = Some (out, c') \<Longrightarrow>
   (\<exists>r. m = Some (Throw r, c') \<and> out = Throw r) \<or> (\<exists>b c. m = Some (Ret b, c) \<and> f b c = Some (out, c'))"
  by (auto simp: on_return_def split: option.splits outcome.splits)

section \<open>Relations that every call of the engine preserves\<close>

text \<open>A stable relation holds between the context before and after every call of the
  engine, however the call ends. The proof follows the engine: one lemma for each body,
  over an engine of which the relation already holds, then induction on the fuel.\<close>

lemma stable_refl: "stable G R \<Longrightarrow> R c c"
  by (simp add: stable_def)

lemma stable_trans: "stable G R \<Longrightarrow> R a b \<Longrightarrow> R b c \<Longrightarrow> R a c"
  unfolding stable_def by blast

lemma stable_restore: "stable G R \<Longrightarrow> R a b \<Longrightarrow> R a (restore b (mk_state a))"
  unfolding stable_def by blast

lemma stable_set_rule_state: "stable G R \<Longrightarrow> R c (set_rule_state c r s)"
  unfolding stable_def by blast

lemma stable_set_rule_pos: "stable G R \<Longrightarrow> R c (set_rule_pos c r p)"
  by (simp add: set_rule_pos_def stable_set_rule_state)

lemma stable_set_rule_mode: "stable G R \<Longrightarrow> R c (set_rule_mode c r m)"
  by (simp add: set_rule_mode_def stable_set_rule_state)

lemma holds_None [simp]: "holds R con None"
  by (simp add: holds_def)

lemma holds_Some [simp]: "holds R con (Some (out, c)) = R con c"
  by (simp add: holds_def)

lemma holds_after:
  assumes "stable G R" and "R con c" and "holds R c m"
  shows "holds R con m"
  using assms by (auto simp: holds_def split: option.splits intro: stable_trans)

lemma holds_on_return:
  assumes st: "stable G R"
    and m: "holds R con m"
    and f: "\<And>b c. m = Some (Ret b, c) \<Longrightarrow> R con c \<Longrightarrow> holds R con (f b c)"
  shows "holds R con (on_return m f)"
  using m f by (auto simp: on_return_def holds_def split: option.splits outcome.splits)

lemma holds_char: "stable G R \<Longrightarrow> R con (snd (char_parse c con))"
  by (simp add: char_parse_def stable_def)

lemma holds_set: "stable G R \<Longrightarrow> R con (snd (set_parse s con))"
  by (simp add: set_parse_def stable_def Let_def)

lemma holds_any: "stable G R \<Longrightarrow> R con (snd (any_parse con))"
  by (simp add: any_parse_def stable_def)

lemma holds_string: "stable G R \<Longrightarrow> R con (snd (string_parse s con))"
proof (induction s arbitrary: con)
  case Nil
  then show ?case by (simp add: stable_refl)
next
  case (Cons c cs)
  have nc: "R con (next_col con)" and se: "R con (set_error_pos con)"
    using Cons.prems by (simp_all add: stable_def)
  from Cons.IH [OF Cons.prems, of "next_col con"] nc se show ?case
    by (auto intro: stable_trans [OF Cons.prems])
qed

lemma holds_skip_ws:
  assumes st: "stable G R" and rec: "engine_holds R ws_ok rec"
    and ws: "nt \<longrightarrow> ws_ok \<and> (\<forall>c. R c (count_ws c))"
  shows "holds R con (skip_ws rec nt con)"
proof (cases nt)
  case True
  then have "R con (count_ws con)" using ws by simp
  moreover have "holds R (count_ws con) (rec (CRule False (m_ws con)) (count_ws con))"
    using rec by (simp add: engine_holds_def)
  ultimately show ?thesis using True by (simp add: skip_ws_def holds_after [OF st])
next
  case False
  then show ?thesis by (simp add: skip_ws_def stable_refl [OF st])
qed

lemma holds_rec:
  "engine_holds R ws_ok rec \<Longrightarrow> call_nt c \<longrightarrow> ws_ok \<Longrightarrow> R con c1 \<Longrightarrow> stable G R \<Longrightarrow>
   holds R con (rec c c1)"
  by (meson engine_holds_def holds_after)

lemma holds_loop_body:
  assumes st: "stable G R" and rec: "engine_holds R ws_ok rec"
    and ws: "nt \<longrightarrow> ws_ok \<and> (\<forall>c. R c (count_ws c))"
  shows "holds R con (loop_body rec nt e con)"
  unfolding loop_body_def Let_def
proof (rule holds_on_return [OF st holds_skip_ws [OF st rec ws]])
  fix b c1 assume c1: "R con c1"
  have "holds R c1 (on_return (rec (CExpr nt e) c1)
          (\<lambda>ok c2. if \<not> ok then Some (Ret True, restore c2 (mk_state c1)) else rec (CLoop nt e) c2))"
  proof (rule holds_on_return [OF st])
    show "holds R c1 (rec (CExpr nt e) c1)"
      using rec ws by (simp add: engine_holds_def)
  next
    fix ok c2 assume c2: "R c1 c2"
    show "holds R c1 (if \<not> ok then Some (Ret True, restore c2 (mk_state c1)) else rec (CLoop nt e) c2)"
      using c2 ws by (simp add: stable_restore [OF st] holds_rec [OF rec _ _ st])
  qed
  then show "holds R con (on_return (rec (CExpr nt e) c1)
          (\<lambda>ok c2. if \<not> ok then Some (Ret True, restore c2 (mk_state c1)) else rec (CLoop nt e) c2))"
    by (rule holds_after [OF st c1])
qed


lemma holds_skip_ws_from:
  assumes st: "stable G R" and rec: "engine_holds R ws_ok rec"
    and ws: "nt \<longrightarrow> ws_ok \<and> (\<forall>c. R c (count_ws c))" and c1: "R con c1"
  shows "holds R con (skip_ws rec nt c1)"
  by (rule holds_after [OF st c1 holds_skip_ws [OF st rec ws]])

lemma holds_expr_body:
  assumes st: "stable G R" and rec: "engine_holds R ws_ok rec"
    and ws: "nt \<longrightarrow> ws_ok \<and> (\<forall>c. R c (count_ws c))"
  shows "holds R con (expr_body rec nt e con)"
proof -
  note rc = holds_rec [OF rec _ _ st]
  note bind = holds_on_return [OF st]
  note sk = holds_skip_ws_from [OF st rec ws]
  have rf: "R con con" by (rule stable_refl [OF st])
  have nl: "\<And>c. R con c \<Longrightarrow> R con (next_line c)"
    using st unfolding stable_def by blast
  show ?thesis
  proof (cases e)
    case (EChar c)
    then show ?thesis by (simp add: leaf_def holds_char [OF st])
  next
    case (EString s)
    then show ?thesis by (simp add: leaf_def holds_string [OF st])
  next
    case (ESet s)
    then show ?thesis by (simp add: leaf_def holds_set [OF st])
  next
    case (ETerm e1)
    then show ?thesis using rf by (simp add: rc)
  next
    case (ELoop0 e1)
    then show ?thesis by (simp add: holds_loop_body [OF st rec ws])
  next
    case (ELoop1 e1)
    show ?thesis unfolding ELoop1 expr_body.simps
      by (intro bind sk rf) (use ws in \<open>auto intro!: bind rc\<close>)
  next
    case (EOptional e1)
    show ?thesis unfolding EOptional expr_body.simps Let_def
      by (intro bind rc rf) (use ws in \<open>auto intro!: stable_restore [OF st]\<close>)
  next
    case (EAnd e1)
    show ?thesis unfolding EAnd expr_body.simps Let_def
      by (intro bind rc rf) (use ws in \<open>auto intro!: stable_restore [OF st]\<close>)
  next
    case (ENot e1)
    show ?thesis unfolding ENot expr_body.simps Let_def
      by (intro bind rc rf) (use ws in \<open>auto intro!: stable_restore [OF st]\<close>)
  next
    case (ENl e1)
    show ?thesis unfolding ENl expr_body.simps
      by (intro bind rc rf) (use ws in \<open>auto intro!: nl\<close>)
  next
    case (ESeq l r)
    show ?thesis unfolding ESeq expr_body.simps
      by (intro bind rc rf) (use ws in \<open>auto intro!: bind sk rc\<close>)
  next
    case (EChoice l r)
    show ?thesis unfolding EChoice expr_body.simps Let_def
      by (intro bind rc rf) (use ws in \<open>auto intro!: rc stable_restore [OF st]\<close>)
  next
    case (ERef r)
    then show ?thesis using rf ws by (simp add: rc)
  next
    case EEof
    then show ?thesis using rf by simp
  next
    case EAny
    then show ?thesis by (simp add: leaf_def holds_any [OF st])
  qed
qed


lemma holds_internal_body:
  assumes st: "stable G R" and rec: "engine_holds R ws_ok rec"
    and ws: "nt \<longrightarrow> ws_ok \<and> (\<forall>c. R c (count_ws c))"
  shows "holds R con (internal_body rec G nt r con)"
proof -
  note rc = holds_rec [OF rec _ _ st]
  have rf: "R con con" by (rule stable_refl [OF st])
  have pm: "\<And>c b e. m_parse_proc (G r) \<noteq> None \<Longrightarrow> R con c \<Longrightarrow> R con (push_match c (Match r b e))"
    using st unfolding stable_def by blast
  show ?thesis unfolding internal_body_def Let_def
    using ws rf by (auto intro!: holds_on_return [OF st] rc pm)
qed

lemma holds_grow_body:
  assumes st: "stable G R" and rec: "engine_holds R ws_ok rec"
    and ws: "nt \<longrightarrow> ws_ok \<and> (\<forall>c. R c (count_ws c))"
  shows "holds R con (grow_body rec nt r old_state con)"
proof -
  note rc = holds_rec [OF rec _ _ st]
  let ?con1 = "set_rule_pos con r (m_it (m_pos con))"
  have c1: "R con ?con1" by (rule stable_set_rule_pos [OF st])
  have fin: "R con (set_rule_state (restore c (mk_state con)) r old_state)" if "R con c" for c
  proof -
    have "R con (restore c (mk_state con))" by (rule stable_restore [OF st that])
    then show ?thesis by (rule stable_trans [OF st _ stable_set_rule_state [OF st]])
  qed
  show ?thesis unfolding grow_body_def Let_def
    using ws c1 by (auto intro!: holds_on_return [OF st] rc fin)
qed

lemma holds_rule_body:
  assumes st: "stable G R" and rec: "engine_holds R ws_ok rec"
    and ws: "nt \<longrightarrow> ws_ok \<and> (\<forall>c. R c (count_ws c))"
  shows "holds R con (rule_body rec nt r con)"
proof -
  note rc = holds_rec [OF rec _ _ st]
  let ?con1 = "set_rule_pos con r (m_it (m_pos con))"
  have c1: "R con ?con1" by (rule stable_set_rule_pos [OF st])
  have md: "R con (set_rule_mode c r m)" if "R con c" for c m
    by (rule stable_trans [OF st that stable_set_rule_mode [OF st]])
  have ss: "R con (set_rule_state c r s)" if "R con c" for c s
    by (rule stable_trans [OF st that stable_set_rule_state [OF st]])
  have catch: "holds R con (case rec (CInternal nt r) ?con1 of
                  None \<Rightarrow> None
                | Some (Ret ok, c) \<Rightarrow> Some (Ret ok, set_rule_state c r old_state)
                | Some (Throw ex, c) \<Rightarrow>
                    if ex = r then Some (Ret True, set_rule_state c r old_state)
                    else Some (Throw ex, set_rule_state c r old_state))" for old_state
  proof -
    have "holds R con (rec (CInternal nt r) ?con1)"
      using ws c1 by (auto intro!: rc)
    then show ?thesis
      by (auto simp: holds_def split: option.splits outcome.splits intro: ss)
  qed
  show ?thesis
  proof (cases "s_mode (rule_states ?con1 r)")
    case PARSE
    show ?thesis unfolding rule_body_def Let_def PARSE rule_mode.case
      using ws c1 catch by (auto intro!: holds_on_return [OF st] rc md ss)
  next
    case REJECT
    show ?thesis unfolding rule_body_def Let_def REJECT rule_mode.case
      using ws c1 by (auto intro!: holds_on_return [OF st] rc md ss)
  next
    case ACCEPT
    show ?thesis unfolding rule_body_def Let_def ACCEPT rule_mode.case
      using ws c1 by (auto intro!: holds_on_return [OF st] rc md ss)
  qed
qed

lemma holds_dispatch:
  assumes st: "stable G R" and rec: "engine_holds R ws_ok rec"
    and ws: "call_nt c \<longrightarrow> ws_ok \<and> (\<forall>c. R c (count_ws c))"
  shows "holds R con (dispatch rec G c con)"
  using ws
  by (cases c)
     (simp_all add: holds_expr_body [OF st rec] holds_loop_body [OF st rec]
        holds_rule_body [OF st rec] holds_grow_body [OF st rec] holds_internal_body [OF st rec])

lemma engine_holds_run:
  assumes st: "stable G R" and ws: "ws_ok \<longrightarrow> (\<forall>c. R c (count_ws c))"
  shows "engine_holds R ws_ok (run n G)"
proof (induction n)
  case 0
  show ?case by (simp add: engine_holds_def)
next
  case (Suc n)
  show ?case unfolding engine_holds_def
  proof (intro allI impI)
    fix c con assume "call_nt c \<longrightarrow> ws_ok"
    then have "call_nt c \<longrightarrow> ws_ok \<and> (\<forall>c. R c (count_ws c))" using ws by blast
    then show "holds R con (run (Suc n) G c con)"
      by (simp add: holds_dispatch [OF st Suc.IH])
  qed
qed

subsection \<open>Four stable relations\<close>

lemma stable_error_le: "stable G error_le"
  by (simp add: stable_def error_le_def context_ops)

lemma stable_same_ws_calls: "stable G same_ws_calls"
  by (simp add: stable_def same_ws_calls_def context_ops)

lemma stable_matches_grow: "stable G (matches_grow G)"
  unfolding stable_def matches_grow_def
  by (auto simp: context_ops list_all_iff dest: in_set_takeD)

lemma run_error_le: "run n G c con = Some (out, con') \<Longrightarrow> error_le con con'"
  using engine_holds_run [OF stable_error_le, where ws_ok = True and n = n and G = G]
  by (auto simp: engine_holds_def holds_def error_le_def count_ws_def split: option.splits)

lemma run_same_ws_calls:
  "run n G c con = Some (out, con') \<Longrightarrow> \<not> call_nt c \<Longrightarrow> same_ws_calls con con'"
  using engine_holds_run [OF stable_same_ws_calls, where ws_ok = False and n = n and G = G]
  by (auto simp: engine_holds_def holds_def split: option.splits)

lemma run_matches_grow: "run n G c con = Some (out, con') \<Longrightarrow> matches_grow G con con'"
  using engine_holds_run [OF stable_matches_grow, where ws_ok = True and n = n and G = G]
  by (auto simp: engine_holds_def holds_def matches_grow_def count_ws_def split: option.splits)

lemma do_parse_procs_ok:
  "list_all (has_proc G) ms \<Longrightarrow> \<exists>calls. do_parse_procs G ms = Inr calls"
  by (induction G ms rule: do_parse_procs.induct) auto



section \<open>Runs of the examples\<close>

lemma opt_ws1:
  "context_parse 10 grammar_opt False 0 (new_context [97, 98] 0 initial_states) =
     Some (Ret True, context_at [97, 98] 0 0 [] 0)"
  by (simp add: example_simps grammar_opt_def)

lemma opt_rule:
  "context_parse 10 grammar_opt True 1 (context_at [97, 98] 0 0 [] 0) =
     Some (Ret True, context_at [97, 98] 1 2 [Match 1 (pos_at 0) (pos_at 1)] 2)"
  by (simp add: example_simps grammar_opt_def)

lemma opt_ws2:
  "context_parse 10 grammar_opt False 0 (context_at [97, 98] 1 2 [Match 1 (pos_at 0) (pos_at 1)] 2) =
     Some (Ret True, context_at [97, 98] 1 2 [Match 1 (pos_at 0) (pos_at 1)] 2)"
  by (simp add: example_simps grammar_opt_def)

section \<open>The grow loop of a left-recursive rule\<close>

lemma reentry_accept:
  "s_mode (rule_states c r) = ACCEPT \<Longrightarrow> s_pos (rule_states c r) = Some (m_it (m_pos c)) \<Longrightarrow>
   run (Suc n) G (CRule nt r) c = Some (Ret True, c)"
  by (simp add: rule_body_def Let_def)
     (simp add: set_rule_state_def set_rule_pos_def)

text \<open>In \<open>grammar_a\<close>, an iteration of the grow loop of rule 1 that has fuel enough returns
  true and leaves the context as it was: the left-recursive reference is answered by
  ACCEPT. So the loop never leaves.\<close>

lemma grow_iteration_a:
  assumes "s_mode (rule_states c (Suc 0)) = ACCEPT" and "s_pos (rule_states c (Suc 0)) = Some (m_it (m_pos c))"
  shows "run n grammar_a (CInternal nt (Suc 0)) c = None \<or>
         run n grammar_a (CInternal nt (Suc 0)) c = Some (Ret True, c)"
  using fuel_cases4 [of n] reentry_accept [OF assms]
  by (auto simp: eval_nat_numeral internal_body_def grammar_a_def on_return_def Let_def)

lemma grow_loop_a_None:
  "s_mode (rule_states c (Suc 0)) = ACCEPT \<Longrightarrow> run n grammar_a (CGrow nt (Suc 0) old) c = None"
proof (induction n arbitrary: c)
  case 0
  show ?case by simp
next
  case (Suc n)
  let ?c1 = "set_rule_pos c (Suc 0) (m_it (m_pos c))"
  have a: "s_mode (rule_states ?c1 (Suc 0)) = ACCEPT" and
       b: "s_pos (rule_states ?c1 (Suc 0)) = Some (m_it (m_pos ?c1))"
    using Suc.prems by (simp_all add: set_rule_pos_def set_rule_state_def)
  from grow_iteration_a [OF a b, of n nt] Suc.IH [OF a] show ?case
    by (auto simp: grow_body_def Let_def on_return_def)
qed

lemma seed_a:
  assumes "m_it (m_pos c) = 0" and "m_input c = [120]"
    and "rule_states c (Suc 0) = \<lparr>s_pos = Some 0, s_mode = REJECT\<rparr>"
  shows "run n grammar_a (CInternal nt (Suc 0)) c = None \<or>
         (\<exists>c'. run n grammar_a (CInternal nt (Suc 0)) c = Some (Ret True, c'))"
  using fuel_cases4 [of n] assms
  by (auto simp: eval_nat_numeral grammar_a_def internal_body_def rule_body_def on_return_def
      leaf_def char_parse_def end_reached_def symbol_def mk_state_def restore_def
      set_rule_state_def set_rule_pos_def Let_def)

lemma rule_a_lr_None:
  assumes "m_it (m_pos c) = 0" and "m_input c = [120]"
    and "rule_states c (Suc 0) = \<lparr>s_pos = Some 0, s_mode = PARSE\<rparr>"
  shows "run n grammar_a (CRule nt (Suc 0)) c = None"
proof (cases n)
  case 0
  then show ?thesis by simp
next
  case (Suc k)
  let ?cr = "set_rule_mode (set_rule_pos c (Suc 0) (m_it (m_pos c))) (Suc 0) REJECT"
  have "m_it (m_pos ?cr) = 0" "m_input ?cr = [120]"
    "rule_states ?cr (Suc 0) = \<lparr>s_pos = Some 0, s_mode = REJECT\<rparr>"
    using assms by (simp_all add: set_rule_mode_def set_rule_pos_def set_rule_state_def)
  from seed_a [OF this, of k nt] show ?thesis
    using assms Suc
    by (auto simp: rule_body_def Let_def on_return_def set_rule_pos_def set_rule_state_def
        set_rule_mode_def grow_loop_a_None)
qed

lemma body_a_lr_None:
  assumes "m_it (m_pos c) = 0" and "m_input c = [120]"
    and "rule_states c (Suc 0) = \<lparr>s_pos = Some 0, s_mode = PARSE\<rparr>"
  shows "run n grammar_a (CInternal nt (Suc 0)) c = None"
proof -
  have r: "run k grammar_a (CRule nt (Suc 0)) c = None" for k
    by (rule rule_a_lr_None [OF assms])
  have e: "run k grammar_a (CExpr nt (ERef (Suc 0))) c = None" for k
    by (cases k) (simp_all add: r)
  have ch: "run k grammar_a (CExpr nt (EChoice (ERef (Suc 0)) (EChar 120))) c = None" for k
    by (cases k) (simp_all add: e on_return_def)
  have g: "m_parse_proc (grammar_a (Suc 0)) = None"
    "m_expr (grammar_a (Suc 0)) = EChoice (ERef (Suc 0)) (EChar 120)"
    by (simp_all add: grammar_a_def)
  show ?thesis
    by (cases n) (simp_all add: internal_body_def g ch)
qed

lemma rule_a_None:
  assumes "m_it (m_pos c) = 0" and "m_input c = [120]"
    and "rule_states c (Suc 0) = \<lparr>s_pos = None, s_mode = PARSE\<rparr>"
  shows "run n grammar_a (CRule nt (Suc 0)) c = None"
proof (cases n)
  case 0
  then show ?thesis by simp
next
  case (Suc k)
  let ?c1 = "set_rule_pos c (Suc 0) (m_it (m_pos c))"
  have "m_it (m_pos ?c1) = 0" "m_input ?c1 = [120]"
    "rule_states ?c1 (Suc 0) = \<lparr>s_pos = Some 0, s_mode = PARSE\<rparr>"
    using assms by (simp_all add: set_rule_pos_def set_rule_state_def)
  from body_a_lr_None [OF this, of k nt] show ?thesis
    using assms Suc by (simp add: rule_body_def Let_def set_rule_pos_def set_rule_state_def)
qed

lemma ws_a:
  "context_parse n grammar_a False 0 (new_context [120] 0 initial_states) = None \<or>
   context_parse n grammar_a False 0 (new_context [120] 0 initial_states) =
     Some (Ret True, new_context [120] 0 initial_states)"
  using fuel_cases4 [of n]
  by (auto simp: example_simps grammar_a_def)

text \<open>
  Claim C1 (the grow loop terminates; an iteration that makes no progress ends it). The
  loop of \<open>_context::parse_non_term\<close> and \<open>_context::parse_term\<close> ends only when
  \<open>_parse_non_term\<close> / \<open>_parse_term\<close> returns false; the position an iteration reaches is
  compared with nothing. For the rule \<open>a = a | 'x'\<close> on the input \<open>x\<close>: an iteration of the
  grow loop returns true with the context unchanged, the grow loop entered after the seed
  (in the context \<open>grow_entry_a\<close>) returns for no amount of fuel, and so neither does \<open>parse_non_term\<close> on the rule nor the
  function \<open>parse\<close>.
\<close>

theorem grow_loop_without_progress_diverges:
  "context_parse_internal 4 grammar_a True 1
       (set_rule_pos grow_entry_a 1 (m_it (m_pos grow_entry_a))) =
     Some (Ret True, set_rule_pos grow_entry_a 1 (m_it (m_pos grow_entry_a))) \<and>
   (\<forall>n old. grow_loop n grammar_a True 1 old grow_entry_a = None) \<and>
   (\<forall>n. context_parse n grammar_a True 1 (new_context [120] 0 initial_states) = None) \<and>
   (\<forall>n. parse n grammar_a initial_states [120] 1 0 [] = None)"
proof -
  let ?c0 = "new_context [120] 0 initial_states"
  have a: "context_parse_internal 4 grammar_a True 1
       (set_rule_pos grow_entry_a 1 (m_it (m_pos grow_entry_a))) =
     Some (Ret True, set_rule_pos grow_entry_a 1 (m_it (m_pos grow_entry_a)))"
    by (simp add: context_parse_internal_def grow_entry_a_def example_simps grammar_a_def)
  have b: "grow_loop n grammar_a True 1 old grow_entry_a = None" for n old
    by (simp add: grow_loop_def grow_loop_a_None grow_entry_a_def)
  have c: "context_parse n grammar_a True 1 ?c0 = None" for n
    using rule_a_None [of ?c0 n True]
    by (simp add: context_parse_def new_context_def initial_states_def initial_rule_state_def)
  have d: "parse n grammar_a initial_states [120] 1 0 [] = None" for n
    using ws_a [of n] c [of n] by (auto simp: parse_def Let_def new_context_def)
  show ?thesis using a b c d by blast
qed

section \<open>What a failing expression leaves behind\<close>

lemma leaf_char_fail:
  "\<not> fst (char_parse c con) \<Longrightarrow>
   m_pos (snd (char_parse c con)) = m_pos con \<and> m_matches (snd (char_parse c con)) = m_matches con"
  by (auto simp: char_parse_def set_error_pos_def split: if_splits)

lemma leaf_set_fail:
  "\<not> fst (set_parse s con) \<Longrightarrow>
   m_pos (snd (set_parse s con)) = m_pos con \<and> m_matches (snd (set_parse s con)) = m_matches con"
  by (auto simp: set_parse_def set_error_pos_def Let_def split: if_splits)

lemma leaf_any_fail:
  "\<not> fst (any_parse con) \<Longrightarrow>
   m_pos (snd (any_parse con)) = m_pos con \<and> m_matches (snd (any_parse con)) = m_matches con"
  by (auto simp: any_parse_def set_error_pos_def split: if_splits)

lemma restore_snapshot:
  "m_pos (restore c (mk_state con)) = m_pos con \<and>
   length (m_matches (restore c (mk_state con))) = length (m_matches con)"
  by (simp add: restore_def mk_state_def resize_def)

lemma loop_never_false:
  "run n G (CLoop nt e) con = Some (Ret b, con') \<Longrightarrow> b"
proof (induction n arbitrary: con con')
  case 0
  then show ?case by simp
next
  case (Suc n)
  from Suc.prems show ?case
    by (auto simp: loop_body_def Let_def dest!: on_return_SomeD split: if_splits
        dest: Suc.IH)
qed

lemma loop0_never_false:
  "expr_parse n G nt (ELoop0 e) con = Some (Ret b, con') \<Longrightarrow> b"
  by (cases n)
     (auto simp: expr_parse_def loop_body_def Let_def dest!: on_return_SomeD split: if_splits
        dest: loop_never_false)

lemma optional_never_false:
  "expr_parse n G nt (EOptional e) con = Some (Ret b, con') \<Longrightarrow> b"
  by (cases n)
     (auto simp: expr_parse_def Let_def dest!: on_return_SomeD split: if_splits)

lemma restores_on_failure_run:
  "restores_on_failure e \<Longrightarrow> run n G (CExpr nt e) con = Some (Ret False, con') \<Longrightarrow>
   m_pos con' = m_pos con \<and> length (m_matches con') = length (m_matches con)"
proof (induction e arbitrary: n nt con con')
  case (EChar c)
  then show ?case by (cases n) (auto simp: leaf_def leaf_char_fail)
next
  case (ESet s)
  then show ?case by (cases n) (auto simp: leaf_def leaf_set_fail)
next
  case (ETerm e)
  then show ?case by (cases n) auto
next
  case (ELoop0 e)
  then show ?case using loop0_never_false [of n G nt e con False con']
    by (simp add: expr_parse_def)
next
  case (EOptional e)
  then show ?case using optional_never_false [of n G nt e con False con']
    by (simp add: expr_parse_def)
next
  case (EAnd e)
  then show ?case
    by (cases n) (auto simp: Let_def restore_snapshot dest!: on_return_SomeD)
next
  case (ENot e)
  then show ?case
    by (cases n) (auto simp: Let_def restore_snapshot dest!: on_return_SomeD)
next
  case (ENl e)
  then show ?case
    by (cases n) (auto dest!: on_return_SomeD split: if_splits)
next
  case (EChoice l r)
  show ?case
  proof (cases n)
    case 0
    then show ?thesis using EChoice.prems by simp
  next
    case (Suc k)
    with EChoice.prems obtain c1 where
      "run k G (CExpr nt r) (restore c1 (mk_state con)) = Some (Ret False, con')"
      by (auto simp: Let_def dest!: on_return_SomeD split: if_splits)
    from EChoice.IH(2) [OF _ this] EChoice.prems(1) show ?thesis
      by (simp add: restore_snapshot)
  qed
next
  case EEof
  then show ?case by (cases n) auto
next
  case EAny
  then show ?case by (cases n) (auto simp: leaf_def leaf_any_fail)
qed simp_all

text \<open>
  Claim C2, amended. Whenever the evaluation, in either mode, of an expression that
  \<open>restores_on_failure\<close> returns false, the position and the length of the match vector
  are what they were before the call: this covers \<open>_char\<close>, \<open>_set\<close>, \<open>_any\<close>, \<open>_eof\<close>, \<open>_and\<close>,
  \<open>_not\<close>, and \<open>_term\<close>, \<open>_nl\<close>, \<open>_choice\<close> over such an expression. \<open>_optional\<close> and \<open>_loop0\<close>
  never return false. The other classes (\<open>_string\<close>, \<open>_seq\<close>, \<open>_loop1\<close>, \<open>_ref\<close>) take no
  snapshot: what they consumed before failing is rolled back by the enclosing expression
  that took one.
\<close>

theorem failure_restores_for_snapshotting_operators:
  "(restores_on_failure e \<and> expr_parse n G nt e con = Some (Ret False, con') \<longrightarrow>
      m_pos con' = m_pos con \<and> length (m_matches con') = length (m_matches con)) \<and>
   expr_parse n G nt (EOptional e) con \<noteq> Some (Ret False, con') \<and>
   expr_parse n G nt (ELoop0 e) con \<noteq> Some (Ret False, con')"
  using restores_on_failure_run [of e n G nt con con']
    optional_never_false [of n G nt e con False con']
    loop0_never_false [of n G nt e con False con']
  by (auto simp: expr_parse_def)

theorem failure_restores_witness:
  "restores_on_failure (ENot (EChar 97)) \<and>
   expr_parse 2 grammar_a True (ENot (EChar 97)) (new_context [97, 99] 0 initial_states) =
     Some (Ret False, new_context [97, 99] 0 initial_states)"
proof -
  have "expr_parse 2 grammar_a True (ENot (EChar 97)) (new_context [97, 99] 0 initial_states) =
     Some (Ret False, new_context [97, 99] 0 initial_states)"
    by (simp add: example_simps)
  then show ?thesis
    using failure_restores_for_snapshotting_operators [of "ENot (EChar 97)" 2 grammar_a True
        "new_context [97, 99] 0 initial_states" "new_context [97, 99] 0 initial_states"]
    by simp
qed

text \<open>
  Claim C2 as stated fails: in non-terminal mode the sequence \<open>'a' >> 'b'\<close> on the input
  \<open>ac\<close> returns false with the position after the \<open>a\<close>.
\<close>

theorem seq_failure_keeps_advance:
  "expr_parse 6 grammar_a True (ESeq (EChar 97) (EChar 98)) (new_context [97, 99] 0 initial_states) =
     Some (Ret False, context_at [97, 99] 1 1 [] 1) \<and>
   m_pos (context_at [97, 99] 1 1 [] 1) \<noteq> m_pos (new_context [97, 99] 0 initial_states)"
  by (simp add: example_simps grammar_a_def)

section \<open>The string matcher\<close>





section \<open>Left-recursive re-entry\<close>

lemma set_rule_state_same:
  "set_rule_state (set_rule_pos con r p) r (rule_states con r) = con"
  by (simp add: set_rule_state_def set_rule_pos_def)

text \<open>
  Claim C4. \<open>_context::parse_non_term\<close> and \<open>_context::parse_term\<close>, called on a rule whose
  recorded position is the current input offset (the re-entry of a rule that is being
  parsed at this position): in mode REJECT the call returns false, in mode ACCEPT it
  returns true, and in both cases at once (one unit of fuel suffices, the body of the
  rule is not evaluated) and with the context, the position included, as it was.
\<close>

theorem left_recursive_reentry:
  assumes "s_pos (rule_states con r) = Some (m_it (m_pos con))"
  shows "(s_mode (rule_states con r) = REJECT \<longrightarrow>
            context_parse (Suc n) G nt r con = Some (Ret False, con)) \<and>
         (s_mode (rule_states con r) = ACCEPT \<longrightarrow>
            context_parse (Suc n) G nt r con = Some (Ret True, con))"
  using assms
  by (simp add: context_parse_Suc rule_body_def Let_def set_rule_state_same)
     (simp add: set_rule_state_def set_rule_pos_def)

theorem left_recursive_reentry_witness:
  "s_pos (rule_states (at_state [120] 1 \<lparr>s_pos = Some 0, s_mode = REJECT\<rparr>) 1) =
     Some (m_it (m_pos (at_state [120] 1 \<lparr>s_pos = Some 0, s_mode = REJECT\<rparr>))) \<and>
   context_parse (Suc 0) grammar_a True 1 (at_state [120] 1 \<lparr>s_pos = Some 0, s_mode = REJECT\<rparr>) =
     Some (Ret False, at_state [120] 1 \<lparr>s_pos = Some 0, s_mode = REJECT\<rparr>) \<and>
   context_parse (Suc 0) grammar_a False 1 (at_state [120] 1 \<lparr>s_pos = Some 0, s_mode = ACCEPT\<rparr>) =
     Some (Ret True, at_state [120] 1 \<lparr>s_pos = Some 0, s_mode = ACCEPT\<rparr>)"
  using left_recursive_reentry [of "at_state [120] 1 \<lparr>s_pos = Some 0, s_mode = REJECT\<rparr>" 1 0 grammar_a True]
    left_recursive_reentry [of "at_state [120] 1 \<lparr>s_pos = Some 0, s_mode = ACCEPT\<rparr>" 1 0 grammar_a False]
  by (simp add: at_state_def new_context_def)

section \<open>The state of a rule across an invocation\<close>

text \<open>An invocation that returns, with either result, has restored the state of its rule.\<close>

lemma grow_never_returns: "run n G (CGrow nt r old) c \<noteq> Some (Ret b, c')"
proof (induction n arbitrary: c)
  case 0
  show ?case by simp
next
  case (Suc n)
  show ?case
    using Suc.IH
    by (auto simp: grow_body_def Let_def dest!: on_return_SomeD split: if_splits)
qed

lemma rule_state_restored_on_return:
  assumes "context_parse n G nt r con = Some (Ret b, con')"
  shows "rule_states con' r = rule_states con r"
proof (cases n)
  case 0
  then show ?thesis using assms by (simp add: context_parse_def)
next
  case (Suc k)
  show ?thesis
    using assms grow_never_returns [of k G nt r]
    by (auto simp: Suc context_parse_def rule_body_def Let_def set_rule_state_def
        dest!: on_return_SomeD
        split: rule_mode.splits if_splits option.splits outcome.splits)
qed

text \<open>
  Claim C5 (the state of the rule on exit is the state on entry, for every exit). The
  frames that return, and the frame in mode PARSE without left recursion that rethrows,
  restore the state; the seed phase, the grow loop and the frames in mode REJECT or ACCEPT
  have no handler, so an \<open>_lr_ok\<close> of another rule that passes through them leaves the
  state as they had set it. In \<open>grammar_mutual\<close> on the input \<open>b\<close>, \<open>parse_non_term\<close> on
  rule 1 reaches rule 1 again at offset 0 through rule 2, with both rules in state
  \<open>(PARSE, 0)\<close> (the context \<open>mutual_inner\<close>); this inner invocation sets rule 1 to REJECT
  for its seed, the grow loop of
  rule 2 completes inside it and throws, and the invocation is left by that exception
  with rule 1 still in REJECT.
\<close>

theorem rule_state_not_restored_on_foreign_signal:
  "context_parse 20 grammar_mutual True 1 mutual_inner =
     Some (Throw 2,
       (context_at [98] 1 1 [] 1)
          \<lparr>rule_states := initial_states
             (1 := \<lparr>s_pos = Some 0, s_mode = REJECT\<rparr>, 2 := \<lparr>s_pos = Some 0, s_mode = PARSE\<rparr>)\<rparr>) \<and>
   rule_states mutual_inner 1 = \<lparr>s_pos = Some 0, s_mode = PARSE\<rparr> \<and>
   rule_states
     ((context_at [98] 1 1 [] 1)
        \<lparr>rule_states := initial_states
           (1 := \<lparr>s_pos = Some 0, s_mode = REJECT\<rparr>, 2 := \<lparr>s_pos = Some 0, s_mode = PARSE\<rparr>)\<rparr>) 1 =
     \<lparr>s_pos = Some 0, s_mode = REJECT\<rparr>"
  by (simp add: mutual_inner_def example_simps grammar_mutual_def)

section \<open>The furthest error position\<close>

text \<open>
  Claim C6. \<open>set_error_pos\<close> replaces the error position only by a current position whose
  iterator is strictly greater; \<open>restore\<close> does not touch it; and across every evaluation of
  an expression and every call of \<open>parse_non_term\<close> / \<open>parse_term\<close>, however it ends, the
  iterator of the error position does not decrease. Hence it does not decrease from call
  to call of the three the function \<open>parse\<close> makes.
\<close>

theorem furthest_error_monotone:
  "m_error_pos (set_error_pos con) =
     (if m_it (m_error_pos con) < m_it (m_pos con) then m_pos con else m_error_pos con) \<and>
   m_error_pos (restore con st) = m_error_pos con \<and>
   (expr_parse n G nt e con = Some (out, con') \<longrightarrow>
      m_it (m_error_pos con) \<le> m_it (m_error_pos con')) \<and>
   (context_parse n G nt r con = Some (out, con') \<longrightarrow>
      m_it (m_error_pos con) \<le> m_it (m_error_pos con')) \<and>
   (context_parse n G False ws (new_context i ws rs) = Some (o1, c1) \<and>
    context_parse n G True g c1 = Some (o2, c2) \<and>
    context_parse n G False ws c2 = Some (o3, c3) \<longrightarrow>
      m_it (m_error_pos (new_context i ws rs)) \<le> m_it (m_error_pos c1) \<and>
      m_it (m_error_pos c1) \<le> m_it (m_error_pos c2) \<and>
      m_it (m_error_pos c2) \<le> m_it (m_error_pos c3))"
proof -
  have a: "m_error_pos (set_error_pos con) =
     (if m_it (m_error_pos con) < m_it (m_pos con) then m_pos con else m_error_pos con)"
    by (simp add: set_error_pos_def)
  have b: "m_error_pos (restore con st) = m_error_pos con"
    by (simp add: restore_def)
  have c: "m_it (m_error_pos x) \<le> m_it (m_error_pos y)"
    if "context_parse n G nt' r' x = Some (out', y)" for nt' r' x out' y
    using run_error_le [of n G "CRule nt' r'" x out' y] that
    by (simp add: context_parse_def error_le_def)
  have d: "expr_parse n G nt e con = Some (out, con') \<longrightarrow>
      m_it (m_error_pos con) \<le> m_it (m_error_pos con')"
    using run_error_le [of n G "CExpr nt e" con out con']
    by (simp add: expr_parse_def error_le_def)
  show ?thesis using a b c d by blast
qed

theorem furthest_error_monotone_witness:
  "context_parse 10 grammar_opt False 0 (new_context [97, 98] 0 initial_states) =
     Some (Ret True, context_at [97, 98] 0 0 [] 0) \<and>
   context_parse 10 grammar_opt True 1 (context_at [97, 98] 0 0 [] 0) =
     Some (Ret True, context_at [97, 98] 1 2 [Match 1 (pos_at 0) (pos_at 1)] 2) \<and>
   context_parse 10 grammar_opt False 0 (context_at [97, 98] 1 2 [Match 1 (pos_at 0) (pos_at 1)] 2) =
     Some (Ret True, context_at [97, 98] 1 2 [Match 1 (pos_at 0) (pos_at 1)] 2) \<and>
   m_it (m_error_pos (context_at [97, 98] 0 0 [] 0)) \<le>
     m_it (m_error_pos (context_at [97, 98] 1 2 [Match 1 (pos_at 0) (pos_at 1)] 2)) \<and>
   m_it (m_pos (context_at [97, 98] 1 2 [Match 1 (pos_at 0) (pos_at 1)] 2)) <
     m_it (m_error_pos (context_at [97, 98] 1 2 [Match 1 (pos_at 0) (pos_at 1)] 2))"
  using furthest_error_monotone [where n = 10 and G = grammar_opt and ws = 0 and i = "[97, 98]"
      and rs = initial_states and g = 1 and ?o1.0 = "Ret True" and ?o2.0 = "Ret True"
      and ?o3.0 = "Ret True" and ?c1.0 = "context_at [97, 98] 0 0 [] 0"
      and ?c2.0 = "context_at [97, 98] 1 2 [Match 1 (pos_at 0) (pos_at 1)] 2"
      and ?c3.0 = "context_at [97, 98] 1 2 [Match 1 (pos_at 0) (pos_at 1)] 2"]
    opt_ws1 opt_rule opt_ws2
  by (simp add: context_at_def pos_at_def new_context_def)

section \<open>The driver\<close>



section \<open>Whitespace\<close>

text \<open>
  Claim C8. The engine invokes the whitespace rule by \<open>con.parse_ws()\<close>, which \<open>ws_calls\<close>
  counts. No evaluation in terminal mode makes such a call: neither \<open>parse_term\<close> of an
  expression, nor either method of \<open>_term\<close>, which both call \<open>parse_term\<close> of the
  subexpression, nor \<open>_context::parse_term\<close> of a rule. (A reference to the rule that also
  serves as whitespace rule, written in the grammar itself, is a \<open>_ref\<close> like any other.)
\<close>

theorem no_whitespace_in_terminal_mode:
  "(expr_parse n G False e con = Some (out, con') \<longrightarrow> ws_calls con' = ws_calls con) \<and>
   (expr_parse n G nt (ETerm e) con = Some (out, con') \<longrightarrow> ws_calls con' = ws_calls con) \<and>
   (context_parse n G False r con = Some (out, con') \<longrightarrow> ws_calls con' = ws_calls con)"
proof -
  have a: "expr_parse n G False e con = Some (out, con') \<longrightarrow> ws_calls con' = ws_calls con"
    using run_same_ws_calls [of n G "CExpr False e" con out con']
    by (simp add: expr_parse_def same_ws_calls_def)
  have b: "expr_parse n G nt (ETerm e) con = Some (out, con') \<longrightarrow> ws_calls con' = ws_calls con"
  proof (cases n)
    case 0
    then show ?thesis by (simp add: expr_parse_def)
  next
    case (Suc k)
    then show ?thesis
      using run_same_ws_calls [of k G "CExpr False e" con out con']
      by (simp add: expr_parse_def same_ws_calls_def)
  qed
  have c: "context_parse n G False r con = Some (out, con') \<longrightarrow> ws_calls con' = ws_calls con"
    using run_same_ws_calls [of n G "CRule False r" con out con']
    by (simp add: context_parse_def same_ws_calls_def)
  show ?thesis using a b c by blast
qed

text \<open>The sequence \<open>'x' >> 'x'\<close> on the input \<open>x x\<close>: as a terminal it fails at the space
  without a call of \<open>parse_ws\<close>; as a non-terminal it skips the space by one call.\<close>

theorem no_whitespace_in_terminal_mode_witness:
  "expr_parse 3 grammar_a True (ETerm (ESeq (EChar 120) (EChar 120)))
       (new_context [120, 32, 120] 0 initial_states) =
     Some (Ret False, context_at [120, 32, 120] 1 1 [] 0) \<and>
   ws_calls (context_at [120, 32, 120] 1 1 [] 0) =
     ws_calls (new_context [120, 32, 120] 0 initial_states) \<and>
   expr_parse 7 grammar_a True (ESeq (EChar 120) (EChar 120))
       (new_context [120, 32, 120] 0 initial_states) =
     Some (Ret True, context_at [120, 32, 120] 3 2 [] 1)"
proof -
  have t: "expr_parse 3 grammar_a True (ETerm (ESeq (EChar 120) (EChar 120)))
       (new_context [120, 32, 120] 0 initial_states) =
     Some (Ret False, context_at [120, 32, 120] 1 1 [] 0)"
    by (simp add: example_simps)
  have n: "expr_parse 7 grammar_a True (ESeq (EChar 120) (EChar 120))
       (new_context [120, 32, 120] 0 initial_states) =
     Some (Ret True, context_at [120, 32, 120] 3 2 [] 1)"
    by (simp add: example_simps grammar_a_def)
  show ?thesis
    using no_whitespace_in_terminal_mode [of 3 grammar_a "ESeq (EChar 120) (EChar 120)"
        "new_context [120, 32, 120] 0 initial_states" "Ret False"
        "context_at [120, 32, 120] 1 1 [] 0" True 0] t n
    by simp
qed

section \<open>Match records and parse procedures\<close>

text \<open>
  Claim C9. \<open>_parse_non_term\<close> / \<open>_parse_term\<close> push a match only for a rule with a parse
  procedure, and \<open>restore\<close> only shortens the match vector, since no call makes it shorter
  than it was. So if every match in the vector is of a rule with a parse procedure before
  a call of the engine, the same holds after it, and \<open>do_parse_procs\<close> on that vector makes
  its calls without meeting a null procedure; \<open>parse\<close>, which starts from the empty vector,
  never crashes in \<open>do_parse_procs\<close>.
\<close>

theorem match_records_have_procs:
  "(context_parse n G nt r con = Some (out, con') \<and> list_all (has_proc G) (m_matches con) \<longrightarrow>
      list_all (has_proc G) (m_matches con') \<and>
      (\<exists>calls. do_parse_procs G (m_matches con') = Inr calls)) \<and>
   (\<forall>cr. parse n G rs i g ws el \<noteq> Some (Crashed cr))"
proof -
  have step: "list_all (has_proc G) (m_matches y)"
    if "context_parse n G nt' r' x = Some (out', y)" and "list_all (has_proc G) (m_matches x)"
    for nt' r' x out' y
    using run_matches_grow [of n G "CRule nt' r'" x out' y] that
    by (simp add: context_parse_def matches_grow_def)
  have a: "context_parse n G nt r con = Some (out, con') \<and> list_all (has_proc G) (m_matches con) \<longrightarrow>
      list_all (has_proc G) (m_matches con') \<and>
      (\<exists>calls. do_parse_procs G (m_matches con') = Inr calls)"
    using step do_parse_procs_ok by blast
  have b: "parse n G rs i g ws el \<noteq> Some (Crashed cr)" for cr
  proof
    assume p: "parse n G rs i g ws el = Some (Crashed cr)"
    let ?c0 = "new_context i ws rs"
    have c0: "list_all (has_proc G) (m_matches ?c0)" by (simp add: new_context_def)
    from p obtain ok1 c1 ok2 c2 ok3 c3 where
      r1: "context_parse n G False (m_ws ?c0) ?c0 = Some (Ret ok1, c1)" and
      r2: "context_parse n G True g c1 = Some (Ret ok2, c2)" and
      r3: "context_parse n G False (m_ws c2) c2 = Some (Ret ok3, c3)" and
      cr: "do_parse_procs G (m_matches c3) = Inl cr"
      by (auto simp: parse_def Let_def split: option.splits outcome.splits if_splits sum.splits)
    have "list_all (has_proc G) (m_matches c3)"
      using step [OF r3 step [OF r2 step [OF r1 c0]]] .
    then show False using do_parse_procs_ok [of G "m_matches c3"] cr by simp
  qed
  show ?thesis using a b by blast
qed

theorem match_records_have_procs_witness:
  "context_parse 10 grammar_opt True 1 (context_at [97, 98] 0 0 [] 0) =
     Some (Ret True, context_at [97, 98] 1 2 [Match 1 (pos_at 0) (pos_at 1)] 2) \<and>
   list_all (has_proc grammar_opt) (m_matches (context_at [97, 98] 0 0 [] 0)) \<and>
   list_all (has_proc grammar_opt)
     (m_matches (context_at [97, 98] 1 2 [Match 1 (pos_at 0) (pos_at 1)] 2)) \<and>
   do_parse_procs grammar_opt
     (m_matches (context_at [97, 98] 1 2 [Match 1 (pos_at 0) (pos_at 1)] 2)) =
     Inr [(10, pos_at 0, pos_at 1)]"
  using match_records_have_procs [of 10 grammar_opt True 1 "context_at [97, 98] 0 0 [] 0"
      "Ret True" "context_at [97, 98] 1 2 [Match 1 (pos_at 0) (pos_at 1)] 2"] opt_rule
  by (simp add: context_at_def grammar_opt_def)

section \<open>Zero-or-more in non-terminal mode\<close>

text \<open>
  Claim C10. \<open>_loop0::parse_non_term\<close> calls \<open>parse_ws\<close> first and takes its snapshot after
  it. When the first attempt at the subexpression then fails, the loop returns true with
  the context restored to that snapshot: the position is the one after the leading
  whitespace, not the one before the call.
\<close>

theorem loop0_keeps_leading_whitespace:
  assumes ws: "context_parse n G False (m_ws con) (count_ws con) = Some (Ret b, c1)"
    and e: "expr_parse n G True e c1 = Some (Ret False, c2)"
  shows "expr_parse (Suc n) G True (ELoop0 e) con = Some (Ret True, restore c2 (mk_state c1)) \<and>
         m_pos (restore c2 (mk_state c1)) = m_pos c1"
  using ws e
  by (simp add: expr_parse_def context_parse_def loop_body_def skip_ws_def on_return_def
      restore_def mk_state_def)

theorem loop0_keeps_leading_whitespace_witness:
  "context_parse 5 grammar_a False (m_ws (new_context [32, 98] 0 initial_states))
       (count_ws (new_context [32, 98] 0 initial_states)) =
     Some (Ret True, context_at [32, 98] 1 1 [] 1) \<and>
   expr_parse 5 grammar_a True (EChar 97) (context_at [32, 98] 1 1 [] 1) =
     Some (Ret False, context_at [32, 98] 1 1 [] 1) \<and>
   expr_parse 6 grammar_a True (ELoop0 (EChar 97)) (new_context [32, 98] 0 initial_states) =
     Some (Ret True, context_at [32, 98] 1 1 [] 1) \<and>
   m_it (m_pos (new_context [32, 98] 0 initial_states)) = 0 \<and>
   m_it (m_pos (context_at [32, 98] 1 1 [] 1)) = 1"
proof -
  have ws: "context_parse 5 grammar_a False (m_ws (new_context [32, 98] 0 initial_states))
       (count_ws (new_context [32, 98] 0 initial_states)) =
     Some (Ret True, context_at [32, 98] 1 1 [] 1)"
    by (simp add: example_simps grammar_a_def)
  have e: "expr_parse 5 grammar_a True (EChar 97) (context_at [32, 98] 1 1 [] 1) =
     Some (Ret False, context_at [32, 98] 1 1 [] 1)"
    by (simp add: example_simps grammar_a_def)
  have r: "restore (context_at [32, 98] 1 1 [] 1) (mk_state (context_at [32, 98] 1 1 [] 1)) =
     context_at [32, 98] 1 1 [] 1"
    by (simp add: example_simps)
  show ?thesis
    using loop0_keeps_leading_whitespace [OF ws e] ws e r
    by (simp add: eval_nat_numeral context_at_def pos_at_def new_context_def)
qed

end
